theory Spec2Isabelle
  imports Main
begin

section \<open>Data model\<close>

text \<open>
  The development follows \<^verbatim>\<open>extractBlocks\<close> and its three line classifiers. An
  instruction line is a \<^typ>\<open>string\<close>, a list of 8-bit characters: space, colon, the
  mnemonics, line feed and carriage return are all among them. The two line terminators
  U+2028 and U+2029 of the source's 16-bit strings are outside this type.

  The source holds constructing blocks by reference: the same object sits in the
  \<^verbatim>\<open>blocks\<close> array, in the \<^verbatim>\<open>labels\<close> table and, for a while, in
  \<^verbatim>\<open>curBlock\<close>. Every constructing block is pushed onto \<^verbatim>\<open>blocks\<close> exactly
  once, in the order of its creation, so the position it takes in the unfiltered array is
  its address: the label table stores that address, and the filtered array is a list of
  addresses into the unfiltered one. A finished block is referred to by its index in
  \<^verbatim>\<open>constructedBlocks\<close>.
\<close>

datatype error = BranchTargetNotFound string

record ConstructingBlock =
  body :: "string list"
  label :: "string option"
  flow :: bool
  branch :: "string option"
  dead :: bool
  realBlock :: "nat option"

record Builder =
  blocks :: "ConstructingBlock list"
  labels :: "string \<rightharpoonup> nat"
  curBlock :: ConstructingBlock

section \<open>Instruction classifier\<close>

text \<open>\<^verbatim>\<open>line.match(/^(err|return)/)\<close>.\<close>

definition isTerminator :: "string \<Rightarrow> bool" where
  "isTerminator line \<longleftrightarrow> take 3 line = ''err'' \<or> take 6 line = ''return''"

text \<open>
  \<^verbatim>\<open>line.split(' ')[0]\<close> is the text before the first space, \<^verbatim>\<open>indexOf(':')\<close>
  the position of its first colon (\<open>-1\<close>, here \<open>None\<close>, when it has none), and
  \<^verbatim>\<open>line.slice(0, colonIdx)\<close> the first \<open>colonIdx\<close> characters of the line.
\<close>

definition indexOf :: "string \<Rightarrow> char \<Rightarrow> nat option" where
  "indexOf s c = (if c \<in> set s then Some (length (takeWhile (\<lambda>d. d \<noteq> c) s)) else None)"

definition getLabelMaybe :: "string \<Rightarrow> string option" where
  "getLabelMaybe line =
     (case indexOf (takeWhile (\<lambda>d. d \<noteq> CHR '' '') line) CHR '':'' of
        None \<Rightarrow> None
      | Some colonIdx \<Rightarrow> Some (take colonIdx line))"

text \<open>
  \<^verbatim>\<open>/^(bnz|bz|b) (.*)/.exec(line)\<close>: each mnemonic must be followed by a space, so
  at most one alternative matches. The dot matches every character except a line
  terminator, so the second group is the rest of the line up to the first line feed or
  carriage return.
\<close>

definition lineTerminator :: "char \<Rightarrow> bool" where
  "lineTerminator c \<longleftrightarrow> c = CHR 0x0A \<or> c = CHR 0x0D"

definition dotStar :: "string \<Rightarrow> string" where
  "dotStar s = takeWhile (\<lambda>c. \<not> lineTerminator c) s"

definition getBranchMaybe :: "string \<Rightarrow> (string \<times> string) option" where
  "getBranchMaybe line =
     (if take 4 line = ''bnz '' then Some (''bnz'', dotStar (drop 4 line))
      else if take 3 line = ''bz '' then Some (''bz'', dotStar (drop 3 line))
      else if take 2 line = ''b '' then Some (''b'', dotStar (drop 2 line))
      else None)"

section \<open>Block builder\<close>

definition newBlock :: "string option \<Rightarrow> bool \<Rightarrow> ConstructingBlock" where
  "newBlock l d = \<lparr>body = [], label = l, flow = False, branch = None, dead = d, realBlock = None\<rparr>"

text \<open>The part of the loop body after the label check: branch, terminator, ordinary line.\<close>

definition otherLine :: "Builder \<Rightarrow> string \<Rightarrow> Builder" where
  "otherLine s line =
     (let cur = (curBlock s)\<lparr>body := body (curBlock s) @ [line]\<rparr> in
      case getBranchMaybe line of
        Some (mnemonic, target) \<Rightarrow>
          (let fl = (mnemonic \<noteq> ''b'') in
           s\<lparr>blocks := blocks s @ [cur\<lparr>flow := fl, branch := Some target\<rparr>],
             curBlock := newBlock None fl\<rparr>)
      | None \<Rightarrow>
          if isTerminator line
          then s\<lparr>blocks := blocks s @ [cur], curBlock := newBlock None True\<rparr>
          else s\<lparr>curBlock := cur\<rparr>)"

text \<open>
  One iteration of \<^verbatim>\<open>for (const line of input)\<close>. \<^verbatim>\<open>if (label)\<close> holds for a
  string that is neither \<^verbatim>\<open>null\<close> nor empty. The block opened by the label will sit at
  position \<open>Suc (length (blocks s))\<close> of the unfiltered array, after the block closed here.
\<close>

definition loopBody :: "Builder \<Rightarrow> string \<Rightarrow> Builder" where
  "loopBody s line =
     (case getLabelMaybe line of
        None \<Rightarrow> otherLine s line
      | Some l \<Rightarrow>
          if l = [] then otherLine s line
          else s\<lparr>blocks := blocks s @ [(curBlock s)\<lparr>flow := True\<rparr>],
                 curBlock := (newBlock (Some l) False)\<lparr>body := [line]\<rparr>,
                 labels := (labels s)(l \<mapsto> Suc (length (blocks s)))\<rparr>)"

definition initBuilder :: Builder where
  "initBuilder = \<lparr>blocks = [], labels = Map.empty, curBlock = newBlock None False\<rparr>"

definition build :: "string list \<Rightarrow> Builder" where
  "build input = foldl loopBody initBuilder input"

text \<open>The unfiltered array after the final \<^verbatim>\<open>blocks.push(curBlock)\<close>.\<close>

definition allBlocks :: "string list \<Rightarrow> ConstructingBlock list" where
  "allBlocks input = blocks (build input) @ [curBlock (build input)]"

text \<open>\<^verbatim>\<open>blocks.filter(block => block.body.length)\<close>, as addresses.\<close>

definition survivors :: "ConstructingBlock list \<Rightarrow> nat list" where
  "survivors store = filter (\<lambda>a. body (store ! a) \<noteq> []) [0..<length store]"

section \<open>Graph assembler\<close>

record Block =
  contents :: "string list"
  label :: string
  dead :: bool
  flow :: "nat option"
  branch :: "nat option"

text \<open>The decimal digits of an index, as the template literal \<^verbatim>\<open>`b${idx}`\<close> prints it.\<close>

fun decimal :: "nat \<Rightarrow> string" where
  "decimal n =
     (if n < 10 then [char_of (48 + n)]
      else decimal (n div 10) @ [char_of (48 + n mod 10)])"

declare decimal.simps [simp del]

text \<open>\<^verbatim>\<open>new Block(block.body, block.label || `b${idx}`, block.dead)\<close>.\<close>

definition mkBlock :: "ConstructingBlock \<Rightarrow> nat \<Rightarrow> Block" where
  "mkBlock block idx =
     \<lparr>contents = body block,
      label = (case ConstructingBlock.label block of
                 None \<Rightarrow> ''b'' @ decimal idx
               | Some l \<Rightarrow> if l = [] then ''b'' @ decimal idx else l),
      dead = ConstructingBlock.dead block,
      flow = None, branch = None\<rparr>"

text \<open>
  \<^verbatim>\<open>blocks.map((block, idx) => ...)\<close>: each surviving block gets its finished block,
  and records it in its own \<^verbatim>\<open>realBlock\<close> field.
\<close>

fun construct :: "ConstructingBlock list \<Rightarrow> nat list \<Rightarrow> nat \<Rightarrow> ConstructingBlock list \<times> Block list" where
  "construct store [] idx = (store, [])"
| "construct store (a # as) idx =
     (let block = store ! a;
          (store', rest) = construct (store[a := block\<lparr>realBlock := Some idx\<rparr>]) as (Suc idx)
      in (store', mkBlock block idx # rest))"

text \<open>
  One iteration of the linking loop, for \<open>i\<close> from 1 below \<^verbatim>\<open>blocks.length\<close>. A
  \<^verbatim>\<open>throw\<close> is the result \<open>Inl\<close>; \<^verbatim>\<open>if (block.branch)\<close> holds for a target that is
  neither undefined nor empty.
\<close>

definition linkBody ::
  "ConstructingBlock list \<Rightarrow> nat list \<Rightarrow> (string \<rightharpoonup> nat) \<Rightarrow> Block list \<Rightarrow> nat \<Rightarrow> error + Block list" where
  "linkBody store bl lab cbs i =
     (let block = store ! (bl ! (i - 1));
          cbs1 = (if ConstructingBlock.flow block
                  then cbs[i - 1 := (cbs ! (i - 1))\<lparr>flow := Some i\<rparr>] else cbs)
      in case ConstructingBlock.branch block of
           None \<Rightarrow> Inr cbs1
         | Some target \<Rightarrow>
             if target = [] then Inr cbs1
             else (case (case lab target of None \<Rightarrow> None | Some a \<Rightarrow> realBlock (store ! a)) of
                     None \<Rightarrow> Inl (BranchTargetNotFound target)
                   | Some r \<Rightarrow> Inr (cbs1[i - 1 := (cbs1 ! (i - 1))\<lparr>branch := Some r\<rparr>])))"

fun linkLoop ::
  "ConstructingBlock list \<Rightarrow> nat list \<Rightarrow> (string \<rightharpoonup> nat) \<Rightarrow> Block list \<Rightarrow> nat list \<Rightarrow> error + Block list" where
  "linkLoop store bl lab cbs [] = Inr cbs"
| "linkLoop store bl lab cbs (i # is) =
     (case linkBody store bl lab cbs i of
        Inl e \<Rightarrow> Inl e
      | Inr cbs' \<Rightarrow> linkLoop store bl lab cbs' is)"

definition extractBlocks :: "string list \<Rightarrow> error + Block list" where
  "extractBlocks input =
     (let store = allBlocks input;
          bl = survivors store;
          (store', constructedBlocks) = construct store bl 0
      in linkLoop store' bl (labels (build input)) constructedBlocks [1..<length bl])"

section \<open>Notions used to state the properties\<close>

text \<open>The array \<^verbatim>\<open>blocks\<close> after the filter, as block values in order.\<close>

definition surviving :: "string list \<Rightarrow> ConstructingBlock list" where
  "surviving input = filter (\<lambda>block. body block \<noteq> []) (allBlocks input)"

text \<open>The label names the stream declares, one entry per declaring line, in order.\<close>

definition declares :: "string \<Rightarrow> string list" where
  "declares line =
     (case getLabelMaybe line of None \<Rightarrow> [] | Some l \<Rightarrow> if l = [] then [] else [l])"

definition declaredLabels :: "string list \<Rightarrow> string list" where
  "declaredLabels input = concat (map declares input)"

text \<open>The label names a list of constructing blocks carries, in order.\<close>

definition labelsOf :: "ConstructingBlock list \<Rightarrow> string list" where
  "labelsOf bs =
     concat (map (\<lambda>b. case ConstructingBlock.label b of None \<Rightarrow> [] | Some l \<Rightarrow> [l]) bs)"

text \<open>The names synthesized for the surviving blocks that carry no label, in order.\<close>

definition synthesizedLabels :: "string list \<Rightarrow> string list" where
  "synthesizedLabels input =
     concat (map (\<lambda>(idx, block). case ConstructingBlock.label block of
                                    None \<Rightarrow> [''b'' @ decimal idx] | Some l \<Rightarrow> [])
                 (enumerate 0 (surviving input)))"

text \<open>What one iteration of the linking loop writes into the finished block it visits.\<close>

definition link1 ::
  "ConstructingBlock list \<Rightarrow> (string \<rightharpoonup> nat) \<Rightarrow> ConstructingBlock \<Rightarrow> Block \<Rightarrow> nat \<Rightarrow> Block" where
  "link1 store lab block b i =
     b\<lparr>flow := (if ConstructingBlock.flow block then Some i else flow b),
       branch := (case ConstructingBlock.branch block of
                    None \<Rightarrow> branch b
                  | Some target \<Rightarrow>
                      if target = [] then branch b
                      else (case lab target of None \<Rightarrow> None | Some a \<Rightarrow> realBlock (store ! a)))\<rparr>"

section \<open>Classifier facts\<close>

lemma getBranchMaybe_Some_cases:
  assumes "getBranchMaybe line \<noteq> None"
  shows "\<exists>rest. line = ''bnz '' @ rest \<or> line = ''bz '' @ rest \<or> line = ''b '' @ rest"
proof -
  from assms have "take 4 line = ''bnz '' \<or> take 3 line = ''bz '' \<or> take 2 line = ''b ''"
    by (auto simp: getBranchMaybe_def split: if_splits)
  then show ?thesis
    by (metis append_take_drop_id)
qed

lemma branch_not_label: "getBranchMaybe line \<noteq> None \<Longrightarrow> getLabelMaybe line = None"
  using getBranchMaybe_Some_cases [of line]
  by (auto simp: getLabelMaybe_def indexOf_def)

lemma branch_not_terminator: "getBranchMaybe line \<noteq> None \<Longrightarrow> \<not> isTerminator line"
  using getBranchMaybe_Some_cases [of line]
  by (auto simp: isTerminator_def)

section \<open>Builder invariants\<close>

lemma build_Nil: "build [] = initBuilder"
  by (simp add: build_def)

lemma build_snoc: "build (xs @ [x]) = loopBody (build xs) x"
  by (simp add: build_def)

lemma cur_fresh:
  "\<not> ConstructingBlock.flow (curBlock (build xs)) \<and>
   ConstructingBlock.branch (curBlock (build xs)) = None \<and>
   realBlock (curBlock (build xs)) = None"
proof (induction xs rule: rev_induct)
  case Nil
  show ?case by (simp add: build_Nil initBuilder_def newBlock_def)
next
  case (snoc x xs)
  then show ?case
    by (auto simp: build_snoc loopBody_def otherLine_def newBlock_def Let_def
        split: option.splits prod.splits)
qed

text \<open>A labelled constructing block opens with the line that declares its label.\<close>

lemma labelled_blocks:
  "b \<in> set (allBlocks xs) \<Longrightarrow> ConstructingBlock.label b = Some n \<Longrightarrow>
   n \<noteq> [] \<and> body b \<noteq> [] \<and> getLabelMaybe (hd (body b)) = Some n"
proof (induction xs arbitrary: b rule: rev_induct)
  case Nil
  then show ?case by (simp add: allBlocks_def build_Nil initBuilder_def newBlock_def)
next
  case (snoc x xs)
  have cur: "ConstructingBlock.label (curBlock (build xs)) = Some n \<Longrightarrow>
     n \<noteq> [] \<and> body (curBlock (build xs)) \<noteq> [] \<and> getLabelMaybe (hd (body (curBlock (build xs)))) = Some n"
    using snoc.IH [of "curBlock (build xs)"] by (simp add: allBlocks_def)
  have old: "c \<in> set (blocks (build xs)) \<Longrightarrow> ConstructingBlock.label c = Some n \<Longrightarrow>
     n \<noteq> [] \<and> body c \<noteq> [] \<and> getLabelMaybe (hd (body c)) = Some n" for c
    using snoc.IH [of c] by (simp add: allBlocks_def)
  from snoc.prems cur old show ?case
    by (auto simp: allBlocks_def build_snoc loopBody_def otherLine_def newBlock_def Let_def
        split: option.splits prod.splits if_splits)
qed

text \<open>The label table points at a block that carries the label.\<close>

lemma labels_sound:
  "labels (build xs) n = Some a \<Longrightarrow>
   a < length (allBlocks xs) \<and> ConstructingBlock.label (allBlocks xs ! a) = Some n"
proof (induction xs arbitrary: n a rule: rev_induct)
  case Nil
  then show ?case by (simp add: build_Nil initBuilder_def)
next
  case (snoc x xs)
  have ih: "\<And>m c. labels (build xs) m = Some c \<Longrightarrow>
     c \<le> length (blocks (build xs)) \<and>
     ConstructingBlock.label ((blocks (build xs) @ [curBlock (build xs)]) ! c) = Some m"
    using snoc.IH by (simp add: allBlocks_def less_Suc_eq_le)
  from snoc.prems show ?case
    using ih [of n a]
    by (auto simp: allBlocks_def build_snoc loopBody_def otherLine_def newBlock_def Let_def
        nth_append less_Suc_eq_le
        split: option.splits prod.splits if_splits)
qed

text \<open>Every declared label opens one block, in order.\<close>

lemma labelsOf_allBlocks: "labelsOf (allBlocks xs) = declaredLabels xs"
proof (induction xs rule: rev_induct)
  case Nil
  show ?case
    by (simp add: allBlocks_def build_Nil initBuilder_def newBlock_def labelsOf_def declaredLabels_def)
next
  case (snoc x xs)
  then show ?case
    by (auto simp: allBlocks_def build_snoc loopBody_def otherLine_def newBlock_def Let_def
        labelsOf_def declaredLabels_def declares_def
        split: option.splits prod.splits if_splits)
qed

section \<open>Construction of the finished blocks\<close>

lemma construct_fst_Cons:
  "fst (construct store (a # as) idx) =
   fst (construct (store[a := (store ! a)\<lparr>realBlock := Some idx\<rparr>]) as (Suc idx))"
  by (simp add: Let_def split_beta)

lemma construct_snd_Cons:
  "snd (construct store (a # as) idx) =
   mkBlock (store ! a) idx #
   snd (construct (store[a := (store ! a)\<lparr>realBlock := Some idx\<rparr>]) as (Suc idx))"
  by (simp add: Let_def split_beta)

lemma construct_length:
  "length (fst (construct store as idx)) = length store \<and>
   length (snd (construct store as idx)) = length as"
  by (induction as arbitrary: store idx)
    (simp_all add: construct_fst_Cons construct_snd_Cons del: construct.simps(2))

lemma construct_other:
  "a \<notin> set as \<Longrightarrow> fst (construct store as idx) ! a = store ! a"
  by (induction as arbitrary: store idx)
    (simp_all add: construct_fst_Cons del: construct.simps(2))

lemma construct_store:
  "distinct as \<Longrightarrow> \<forall>a\<in>set as. a < length store \<Longrightarrow> k < length as \<Longrightarrow>
   fst (construct store as idx) ! (as ! k) = (store ! (as ! k))\<lparr>realBlock := Some (idx + k)\<rparr>"
proof (induction as arbitrary: store idx k)
  case Nil
  then show ?case by simp
next
  case (Cons a as)
  show ?case
  proof (cases k)
    case 0
    with Cons.prems show ?thesis
      by (simp add: construct_fst_Cons construct_other del: construct.simps(2))
  next
    case (Suc k')
    with Cons.prems have "as ! k' \<noteq> a" by auto
    with Suc Cons.prems Cons.IH [of "store[a := (store ! a)\<lparr>realBlock := Some idx\<rparr>]" k' "Suc idx"]
    show ?thesis
      by (simp add: construct_fst_Cons del: construct.simps(2))
  qed
qed

lemma construct_blocks:
  "distinct as \<Longrightarrow> k < length as \<Longrightarrow>
   snd (construct store as idx) ! k = mkBlock (store ! (as ! k)) (idx + k)"
proof (induction as arbitrary: store idx k)
  case Nil
  then show ?case by simp
next
  case (Cons a as)
  show ?case
  proof (cases k)
    case 0
    then show ?thesis by (simp add: construct_snd_Cons del: construct.simps(2))
  next
    case (Suc k')
    with Cons.prems have "as ! k' \<noteq> a" by auto
    with Suc Cons.prems Cons.IH [of k' "store[a := (store ! a)\<lparr>realBlock := Some idx\<rparr>]" "Suc idx"]
    show ?thesis
      by (simp add: construct_snd_Cons del: construct.simps(2))
  qed
qed

section \<open>The linking loop\<close>

lemma linkBody_Inr:
  assumes "linkBody store bl lab cbs i = Inr cbs'" "0 < i" "i \<le> length cbs"
  shows "cbs' = cbs[i - 1 := link1 store lab (store ! (bl ! (i - 1))) (cbs ! (i - 1)) i]"
  using assms
  by (auto simp: linkBody_def link1_def Let_def split: option.splits if_splits)

lemma linkBody_Inl:
  assumes "linkBody store bl lab cbs i = Inl e"
  shows "\<exists>t. e = BranchTargetNotFound t \<and> t \<noteq> [] \<and>
             ConstructingBlock.branch (store ! (bl ! (i - 1))) = Some t \<and>
             (case lab t of None \<Rightarrow> None | Some a \<Rightarrow> realBlock (store ! a)) = None"
  using assms
  by (auto simp: linkBody_def Let_def split: option.splits if_splits)

lemma linkLoop_Inr:
  "linkLoop store bl lab cbs is = Inr bs \<Longrightarrow> distinct is \<Longrightarrow>
   \<forall>i\<in>set is. 0 < i \<and> i \<le> length cbs \<Longrightarrow>
   length bs = length cbs \<and>
   (\<forall>j<length cbs. bs ! j =
      (if Suc j \<in> set is then link1 store lab (store ! (bl ! j)) (cbs ! j) (Suc j) else cbs ! j))"
proof (induction "is" arbitrary: cbs)
  case Nil
  then show ?case by simp
next
  case (Cons i "is")
  from Cons.prems(1) obtain cbs' where
    body: "linkBody store bl lab cbs i = Inr cbs'" and rest: "linkLoop store bl lab cbs' is = Inr bs"
    by (auto split: sum.splits)
  from Cons.prems have i: "0 < i" "i \<le> length cbs" "i \<notin> set is" by auto
  from linkBody_Inr [OF body i(1,2)]
  have cbs': "cbs' = cbs[i - 1 := link1 store lab (store ! (bl ! (i - 1))) (cbs ! (i - 1)) i]" .
  then have len: "length cbs' = length cbs" by simp
  from Cons.IH [OF rest] Cons.prems len
  have ih: "length bs = length cbs'"
    "\<And>j. j < length cbs' \<Longrightarrow> bs ! j =
      (if Suc j \<in> set is then link1 store lab (store ! (bl ! j)) (cbs' ! j) (Suc j) else cbs' ! j)"
    by auto
  show ?case
  proof (intro conjI allI impI)
    show "length bs = length cbs" using ih(1) len by simp
  next
    fix j assume j: "j < length cbs"
    show "bs ! j = (if Suc j \<in> set (i # is)
            then link1 store lab (store ! (bl ! j)) (cbs ! j) (Suc j) else cbs ! j)"
    proof (cases "j = i - 1")
      case True
      with i have "Suc j = i" by simp
      with True i j ih(2) [of j] len cbs' show ?thesis by simp
    next
      case False
      with i have "Suc j \<noteq> i" by auto
      with False j ih(2) [of j] len cbs' show ?thesis by simp
    qed
  qed
qed

lemma linkLoop_Inl:
  "linkLoop store bl lab cbs is = Inl e \<Longrightarrow>
   \<exists>i\<in>set is. \<exists>t. e = BranchTargetNotFound t \<and> t \<noteq> [] \<and>
     ConstructingBlock.branch (store ! (bl ! (i - 1))) = Some t \<and>
     (case lab t of None \<Rightarrow> None | Some a \<Rightarrow> realBlock (store ! a)) = None"
proof (induction "is" arbitrary: cbs)
  case Nil
  then show ?case by simp
next
  case (Cons i "is")
  show ?case
  proof (cases "linkBody store bl lab cbs i")
    case (Inl e')
    with Cons.prems have "e' = e" by simp
    with linkBody_Inl [OF Inl] show ?thesis by auto
  next
    case (Inr cbs')
    with Cons.prems have "linkLoop store bl lab cbs' is = Inl e" by simp
    from Cons.IH [OF this] show ?thesis by auto
  qed
qed

section \<open>The filtered array\<close>

lemma survivors_distinct: "distinct (survivors store)"
  by (simp add: survivors_def)

lemma survivors_set: "a \<in> set (survivors store) \<longleftrightarrow> a < length store \<and> body (store ! a) \<noteq> []"
  by (auto simp: survivors_def)

lemma filter_as_addresses:
  "filter P xs = map (\<lambda>a. xs ! a) (filter (\<lambda>a. P (xs ! a)) [0..<length xs])"
proof (induction xs rule: rev_induct)
  case Nil
  show ?case by simp
next
  case (snoc x xs)
  have "map (\<lambda>a. (xs @ [x]) ! a) (filter (\<lambda>a. P ((xs @ [x]) ! a)) [0..<length xs])
      = map (\<lambda>a. xs ! a) (filter (\<lambda>a. P (xs ! a)) [0..<length xs])"
    by (rule map_cong [OF filter_cong]) (auto simp: nth_append)
  with snoc show ?case by simp
qed

lemma surviving_addresses:
  "surviving input = map (\<lambda>a. allBlocks input ! a) (survivors (allBlocks input))"
  unfolding surviving_def survivors_def by (rule filter_as_addresses)

lemma surviving_length: "length (surviving input) = length (survivors (allBlocks input))"
  by (simp add: surviving_addresses)

lemma surviving_nth:
  "j < length (surviving input) \<Longrightarrow>
   surviving input ! j = allBlocks input ! (survivors (allBlocks input) ! j)"
  by (simp add: surviving_addresses)

section \<open>The result of extractBlocks\<close>

lemma extractBlocks_unfold:
  "extractBlocks input =
   linkLoop (fst (construct (allBlocks input) (survivors (allBlocks input)) 0))
     (survivors (allBlocks input)) (labels (build input))
     (snd (construct (allBlocks input) (survivors (allBlocks input)) 0))
     [1..<length (survivors (allBlocks input))]"
  by (simp add: extractBlocks_def Let_def split_beta)

lemma finalStore_nth:
  assumes "j < length (surviving input)"
  shows "fst (construct (allBlocks input) (survivors (allBlocks input)) 0) ! (survivors (allBlocks input) ! j)
         = (surviving input ! j)\<lparr>realBlock := Some j\<rparr>"
proof -
  have "\<forall>a\<in>set (survivors (allBlocks input)). a < length (allBlocks input)"
    by (simp add: survivors_set)
  from construct_store [OF survivors_distinct this, of j 0] assms show ?thesis
    by (simp add: surviving_length surviving_nth)
qed

lemma constructed_nth:
  assumes "j < length (surviving input)"
  shows "snd (construct (allBlocks input) (survivors (allBlocks input)) 0) ! j
         = mkBlock (surviving input ! j) j"
  using construct_blocks [OF survivors_distinct, of j "allBlocks input" "allBlocks input" 0] assms
  by (simp add: surviving_length surviving_nth)

text \<open>A name in the label table resolves to the finished block of a surviving block.\<close>

lemma label_resolves:
  assumes "labels (build input) t = Some a"
  shows "\<exists>k<length (surviving input). survivors (allBlocks input) ! k = a \<and>
           realBlock (fst (construct (allBlocks input) (survivors (allBlocks input)) 0) ! a) = Some k \<and>
           ConstructingBlock.label (surviving input ! k) = Some t"
proof -
  from labels_sound [OF assms]
  have a: "a < length (allBlocks input)" "ConstructingBlock.label (allBlocks input ! a) = Some t"
    by auto
  then have "allBlocks input ! a \<in> set (allBlocks input)" by simp
  from labelled_blocks [OF this a(2)] have "body (allBlocks input ! a) \<noteq> []" by simp
  with a(1) have "a \<in> set (survivors (allBlocks input))" by (simp add: survivors_set)
  then obtain k where k: "k < length (survivors (allBlocks input))" "survivors (allBlocks input) ! k = a"
    by (auto simp: in_set_conv_nth)
  then have k': "k < length (surviving input)" by (simp add: surviving_length)
  from finalStore_nth [OF k'] k(2) a(2) surviving_nth [OF k'] k' show ?thesis
    by auto
qed

lemma extract_Inr:
  assumes "extractBlocks input = Inr bs"
  shows "length bs = length (surviving input)"
    and "j < length bs \<Longrightarrow> bs ! j =
      (if Suc j < length bs
       then link1 (fst (construct (allBlocks input) (survivors (allBlocks input)) 0)) (labels (build input))
              (surviving input ! j) (mkBlock (surviving input ! j) j) (Suc j)
       else mkBlock (surviving input ! j) j)"
proof -
  let ?store = "allBlocks input"
  let ?bl = "survivors ?store"
  let ?st' = "fst (construct ?store ?bl 0)"
  let ?cbs = "snd (construct ?store ?bl 0)"
  have len: "length ?cbs = length ?bl" by (simp add: construct_length)
  from assms have loop: "linkLoop ?st' ?bl (labels (build input)) ?cbs [1..<length ?bl] = Inr bs"
    by (simp add: extractBlocks_unfold)
  have rng: "\<forall>i\<in>set [1..<length ?bl]. 0 < i \<and> i \<le> length ?cbs"
    using len by auto
  from linkLoop_Inr [OF loop _ rng]
  have L: "length bs = length ?cbs"
    and N: "\<And>j. j < length ?cbs \<Longrightarrow> bs ! j =
      (if Suc j \<in> set [1..<length ?bl]
       then link1 ?st' (labels (build input)) (?st' ! (?bl ! j)) (?cbs ! j) (Suc j) else ?cbs ! j)"
    by auto
  from L len show lb: "length bs = length (surviving input)" by (simp add: surviving_length)
  assume j: "j < length bs"
  with lb have j': "j < length (surviving input)" by simp
  have l1: "link1 ?st' (labels (build input)) (?st' ! (?bl ! j)) b i
          = link1 ?st' (labels (build input)) (surviving input ! j) b i" for b i
    by (simp add: finalStore_nth [OF j'] link1_def)
  from N [of j] j L lb show "bs ! j =
      (if Suc j < length bs
       then link1 ?st' (labels (build input)) (surviving input ! j) (mkBlock (surviving input ! j) j) (Suc j)
       else mkBlock (surviving input ! j) j)"
    by (simp add: constructed_nth [OF j'] l1 surviving_length)
qed

lemma extract_contents:
  "extractBlocks input = Inr bs \<Longrightarrow> j < length bs \<Longrightarrow> contents (bs ! j) = body (surviving input ! j)"
  by (simp add: extract_Inr link1_def mkBlock_def)

lemma extract_label:
  "extractBlocks input = Inr bs \<Longrightarrow> j < length bs \<Longrightarrow>
   label (bs ! j) = label (mkBlock (surviving input ! j) j)"
  by (simp add: extract_Inr link1_def mkBlock_def)

lemma extract_flow:
  "extractBlocks input = Inr bs \<Longrightarrow> j < length bs \<Longrightarrow>
   flow (bs ! j) =
     (if Suc j < length bs \<and> ConstructingBlock.flow (surviving input ! j) then Some (Suc j) else None)"
  by (simp add: extract_Inr link1_def mkBlock_def)

lemma extract_branch:
  "extractBlocks input = Inr bs \<Longrightarrow> j < length bs \<Longrightarrow>
   branch (bs ! j) =
     (if Suc j < length bs
      then (case ConstructingBlock.branch (surviving input ! j) of
              None \<Rightarrow> None
            | Some t \<Rightarrow> if t = [] then None
                else (case labels (build input) t of
                        None \<Rightarrow> None
                      | Some a \<Rightarrow> realBlock (fst (construct (allBlocks input) (survivors (allBlocks input)) 0) ! a)))
      else None)"
  by (simp add: extract_Inr link1_def mkBlock_def split: option.splits)

lemma extract_branch_Some:
  assumes "extractBlocks input = Inr bs" "j < length bs" "branch (bs ! j) = Some r"
  shows "r < length bs \<and> Suc j < length bs \<and>
         (\<exists>t. t \<noteq> [] \<and> ConstructingBlock.branch (surviving input ! j) = Some t \<and>
              labels (build input) t = Some (survivors (allBlocks input) ! r) \<and>
              ConstructingBlock.label (surviving input ! r) = Some t)"
proof -
  from assms extract_branch [OF assms(1,2)] obtain t a where
    t: "Suc j < length bs" "ConstructingBlock.branch (surviving input ! j) = Some t" "t \<noteq> []"
       "labels (build input) t = Some a"
       "realBlock (fst (construct (allBlocks input) (survivors (allBlocks input)) 0) ! a) = Some r"
    by (auto split: if_splits option.splits)
  from label_resolves [OF t(4)] t(5) have
    "r < length (surviving input)" "survivors (allBlocks input) ! r = a"
    "ConstructingBlock.label (surviving input ! r) = Some t"
    by auto
  with t extract_Inr(1) [OF assms(1)] show ?thesis by auto
qed

lemma extract_Inl:
  assumes "extractBlocks input = Inl e"
  shows "\<exists>t. e = BranchTargetNotFound t \<and> t \<noteq> [] \<and> labels (build input) t = None"
proof -
  from assms linkLoop_Inl [of _ _ "labels (build input)" _ _ e]
  obtain t where t: "e = BranchTargetNotFound t" "t \<noteq> []"
    "(case labels (build input) t of None \<Rightarrow> None
      | Some a \<Rightarrow> realBlock (fst (construct (allBlocks input) (survivors (allBlocks input)) 0) ! a)) = None"
    unfolding extractBlocks_unfold by blast
  show ?thesis
  proof (cases "labels (build input) t")
    case None
    with t show ?thesis by simp
  next
    case (Some a)
    with label_resolves [OF Some] t(3) show ?thesis by auto
  qed
qed

section \<open>The label table\<close>

lemma labels_loopBody:
  "labels (loopBody s x) n = (if n \<in> set (declares x) then Some (Suc (length (blocks s))) else labels s n)"
proof (cases "declares x")
  case Nil
  then have "loopBody s x = otherLine s x"
    by (auto simp: loopBody_def declares_def split: option.splits if_splits)
  with Nil show ?thesis
    by (simp add: otherLine_def Let_def split: option.splits prod.splits)
next
  case (Cons l ls)
  then have "getLabelMaybe x = Some l \<and> l \<noteq> [] \<and> ls = []"
    by (auto simp: declares_def split: option.splits if_splits)
  with Cons show ?thesis
    by (simp add: loopBody_def)
qed

lemma labels_foldl_other:
  "\<forall>y\<in>set ys. n \<notin> set (declares y) \<Longrightarrow> labels (foldl loopBody s ys) n = labels s n"
  by (induction ys arbitrary: s) (simp_all add: labels_loopBody)

text \<open>Later lines leave the closed blocks alone and only extend the body of the current one.\<close>

lemma loopBody_keeps:
  "length (blocks s) \<le> length (blocks (loopBody s y)) \<and>
   (\<forall>k<length (blocks s). blocks (loopBody s y) ! k = blocks s ! k) \<and>
   (\<exists>more. body ((blocks (loopBody s y) @ [curBlock (loopBody s y)]) ! length (blocks s))
            = body (curBlock s) @ more)"
  by (auto simp: loopBody_def otherLine_def Let_def nth_append split: option.splits prod.splits)

lemma foldl_keeps:
  "length (blocks s) \<le> length (blocks (foldl loopBody s ys)) \<and>
   (\<exists>more. body ((blocks (foldl loopBody s ys) @ [curBlock (foldl loopBody s ys)]) ! length (blocks s))
            = body (curBlock s) @ more)"
proof (induction ys rule: rev_induct)
  case Nil
  show ?case by simp
next
  case (snoc y ys)
  let ?t = "foldl loopBody s ys"
  from snoc obtain more where
    le: "length (blocks s) \<le> length (blocks ?t)" and
    more: "body ((blocks ?t @ [curBlock ?t]) ! length (blocks s)) = body (curBlock s) @ more"
    by blast
  from loopBody_keeps [of ?t y] obtain more' where
    k: "length (blocks ?t) \<le> length (blocks (loopBody ?t y))"
       "\<And>k. k < length (blocks ?t) \<Longrightarrow> blocks (loopBody ?t y) ! k = blocks ?t ! k"
       "body ((blocks (loopBody ?t y) @ [curBlock (loopBody ?t y)]) ! length (blocks ?t))
            = body (curBlock ?t) @ more'"
    by blast
  show ?case
  proof (cases "length (blocks s) < length (blocks ?t)")
    case True
    with k(1) k(2) [OF True] more have
      "body ((blocks (loopBody ?t y) @ [curBlock (loopBody ?t y)]) ! length (blocks s))
        = body (curBlock s) @ more"
      by (simp add: nth_append)
    with le k(1) show ?thesis by simp
  next
    case False
    with le have eq: "length (blocks s) = length (blocks ?t)" by simp
    with more have "body (curBlock ?t) = body (curBlock s) @ more" by simp
    with k(3) eq have
      "body ((blocks (loopBody ?t y) @ [curBlock (loopBody ?t y)]) ! length (blocks s))
        = body (curBlock s) @ (more @ more')"
      by simp
    with le k(1) show ?thesis by (simp del: append_assoc)
  qed
qed

lemma last_declaration:
  assumes "n \<in> set (declares l)" "\<forall>y\<in>set ys. n \<notin> set (declares y)"
  shows "labels (build (xs @ l # ys)) n = Some (Suc (length (blocks (build xs))))"
    and "\<exists>more. body (allBlocks (xs @ l # ys) ! Suc (length (blocks (build xs)))) = l # more"
proof -
  let ?s = "loopBody (build xs) l"
  have b: "build (xs @ l # ys) = foldl loopBody ?s ys"
    by (simp add: build_def)
  from assms show "labels (build (xs @ l # ys)) n = Some (Suc (length (blocks (build xs))))"
    by (simp add: b labels_foldl_other labels_loopBody)
  from assms(1) have s: "length (blocks ?s) = Suc (length (blocks (build xs)))" "body (curBlock ?s) = [l]"
    by (auto simp: loopBody_def declares_def newBlock_def split: option.splits if_splits)
  from foldl_keeps [of ?s ys] s show
    "\<exists>more. body (allBlocks (xs @ l # ys) ! Suc (length (blocks (build xs)))) = l # more"
    by (simp add: allBlocks_def b)
qed

section \<open>Synthesized names\<close>

lemma decimal_not_Nil: "decimal n \<noteq> []"
  by (subst decimal.simps) simp

lemma digit_inj: "n < 10 \<Longrightarrow> m < 10 \<Longrightarrow> (char_of (48 + n) :: char) = char_of (48 + m) \<Longrightarrow> n = (m::nat)"
proof -
  assume a: "n < 10" "m < 10" "(char_of (48 + n) :: char) = char_of (48 + m)"
  then have "(of_char (char_of (48 + n) :: char) :: nat) = of_char (char_of (48 + m) :: char)" by simp
  with a(1,2) show ?thesis by simp
qed

lemma decimal_inj: "decimal n = decimal m \<Longrightarrow> n = m"
proof (induction n arbitrary: m rule: decimal.induct)
  case (1 n)
  show ?case
  proof (cases "n < 10")
    case n: True
    show ?thesis
    proof (cases "m < 10")
      case True
      with n "1.prems" show ?thesis
        by (simp add: decimal.simps [of n] decimal.simps [of m] digit_inj)
    next
      case False
      with n "1.prems" decimal_not_Nil [of "m div 10"] show ?thesis
        by (simp add: decimal.simps [of n] decimal.simps [of m])
    qed
  next
    case n: False
    show ?thesis
    proof (cases "m < 10")
      case True
      with n "1.prems" decimal_not_Nil [of "n div 10"] show ?thesis
        by (simp add: decimal.simps [of n] decimal.simps [of m])
    next
      case False
      with n "1.prems" have eq: "decimal (n div 10) = decimal (m div 10)"
        "(char_of (48 + n mod 10) :: char) = char_of (48 + m mod 10)"
        by (simp_all add: decimal.simps [of n] decimal.simps [of m])
      from "1.IH" [OF n eq(1)] have "n div 10 = m div 10" .
      moreover from digit_inj [OF _ _ eq(2)] have "n mod 10 = m mod 10" by simp
      ultimately show ?thesis by (metis div_mult_mod_eq)
    qed
  qed
qed

section \<open>Labels of the surviving blocks\<close>

lemma labelsOf_filter:
  "\<forall>b\<in>set xs. ConstructingBlock.label b \<noteq> None \<longrightarrow> P b \<Longrightarrow> labelsOf (filter P xs) = labelsOf xs"
  by (induction xs) (auto simp: labelsOf_def)

lemma labelsOf_surviving: "labelsOf (surviving input) = declaredLabels input"
proof -
  have "\<forall>b\<in>set (allBlocks input). ConstructingBlock.label b \<noteq> None \<longrightarrow> body b \<noteq> []"
    using labelled_blocks by blast
  from labelsOf_filter [of "allBlocks input" "\<lambda>b. body b \<noteq> []", OF this] show ?thesis
    by (simp add: surviving_def labelsOf_allBlocks)
qed

lemma labelsOf_set:
  "set (labelsOf xs) = {l. \<exists>j<length xs. ConstructingBlock.label (xs ! j) = Some l}"
proof -
  have "set (labelsOf xs) = {l. \<exists>b\<in>set xs. ConstructingBlock.label b = Some l}"
    by (auto simp: labelsOf_def split: option.splits)
  also have "\<dots> = {l. \<exists>j<length xs. ConstructingBlock.label (xs ! j) = Some l}"
    by (metis (no_types, opaque_lifting) in_set_conv_nth)
  finally show ?thesis .
qed

lemma labelsOf_distinct_nth:
  "distinct (labelsOf xs) \<Longrightarrow> i < j \<Longrightarrow> j < length xs \<Longrightarrow>
   ConstructingBlock.label (xs ! i) = Some a \<Longrightarrow> ConstructingBlock.label (xs ! j) = Some b \<Longrightarrow> a \<noteq> b"
proof -
  assume d: "distinct (labelsOf xs)" and ij: "i < j" "j < length xs"
    and a: "ConstructingBlock.label (xs ! i) = Some a" and b: "ConstructingBlock.label (xs ! j) = Some b"
  have xs: "xs = take j xs @ xs ! j # drop (Suc j) xs"
    using ij(2) by (simp add: id_take_nth_drop)
  have "a \<in> set (labelsOf (take j xs))"
    using ij a by (auto simp: labelsOf_set)
  moreover have "labelsOf xs = labelsOf (take j xs) @ b # labelsOf (drop (Suc j) xs)"
    by (subst xs) (simp add: labelsOf_def b)
  ultimately show "a \<noteq> b" using d by auto
qed

lemma surviving_label:
  assumes "j < length (surviving input)"
  shows "label (mkBlock (surviving input ! j) j) =
         (case ConstructingBlock.label (surviving input ! j) of
            None \<Rightarrow> ''b'' @ decimal j | Some l \<Rightarrow> l)"
proof -
  from assms have "surviving input ! j \<in> set (allBlocks input)"
    using nth_mem [OF assms] by (simp add: surviving_def)
  from labelled_blocks [OF this] show ?thesis
    by (auto simp: mkBlock_def split: option.splits)
qed

lemma surviving_body: "j < length (surviving input) \<Longrightarrow> body (surviving input ! j) \<noteq> []"
  using nth_mem [of j "surviving input"] by (simp add: surviving_def)

section \<open>Dead flag after a branch\<close>

text \<open>
  C1: the block opened after a branch is dead iff the branch was unconditional, and in the
  stream \<open>b l0; int 9; l0:; err\<close> the block holding \<open>int 9\<close> is dead and falls through
  to \<open>l0\<close>. The source computes \<^verbatim>\<open>dead: !!flow\<close>, where \<^verbatim>\<open>flow\<close> is set for the
  conditional mnemonics only, so the flag comes out inverted: after \<open>b\<close> the block holding
  \<open>int 9\<close> has \<open>dead = False\<close>, and after \<open>bnz\<close> it has \<open>dead = True\<close>. The
  fallthrough link to \<open>l0\<close> is there in both runs.
\<close>

theorem dead_flag_inverted_after_branch:
  "extractBlocks [''b l0'', ''int 9'', ''l0:'', ''err''] = Inr
     [\<lparr>contents = [''b l0''], label = ''b0'', dead = False, flow = None, branch = Some 2\<rparr>,
      \<lparr>contents = [''int 9''], label = ''b1'', dead = False, flow = Some 2, branch = None\<rparr>,
      \<lparr>contents = [''l0:'', ''err''], label = ''l0'', dead = False, flow = None, branch = None\<rparr>]
   \<and> extractBlocks [''bnz l0'', ''int 9'', ''l0:'', ''err''] = Inr
     [\<lparr>contents = [''bnz l0''], label = ''b0'', dead = False, flow = Some 1, branch = Some 2\<rparr>,
      \<lparr>contents = [''int 9''], label = ''b1'', dead = True, flow = Some 2, branch = None\<rparr>,
      \<lparr>contents = [''l0:'', ''err''], label = ''l0'', dead = False, flow = None, branch = None\<rparr>]"
  by code_simp

section \<open>Unresolved branch targets\<close>

text \<open>
  C2: a stream with a branch target that no line declares makes \<open>extractBlocks\<close> fail
  with the unresolved-target error. The linking loop runs \<open>i\<close> from 1 below the number
  of surviving blocks and visits block \<open>i - 1\<close>, so the last surviving block is never
  visited: the one-line stream \<open>b missing\<close> returns a graph, with no branch successor and
  no error.
\<close>

theorem last_block_target_unchecked:
  "extractBlocks [''b missing''] = Inr
     [\<lparr>contents = [''b missing''], label = ''b0'', dead = False, flow = None, branch = None\<rparr>]"
  by code_simp

section \<open>Overlap of the classifiers\<close>

text \<open>
  C7, as stated: no line satisfies two of the three classifiers. The line \<open>err:\<close> is a
  label declaration with the usable name \<open>err\<close> and matches the terminator test as well.
\<close>

theorem label_and_terminator_overlap:
  "getLabelMaybe ''err:'' = Some ''err'' \<and> ''err'' \<noteq> [] \<and> isTerminator ''err:''"
  by code_simp

text \<open>
  C7, amended: a branch line is neither a label declaration nor a terminator; a line that
  declares a usable label is handled as a label by the builder whatever the terminator test
  says of it, since the label check comes first.
\<close>

theorem classifier_exclusive:
  "(getBranchMaybe line \<noteq> None \<longrightarrow> getLabelMaybe line = None \<and> \<not> isTerminator line)
   \<and> (\<forall>l. getLabelMaybe line = Some l \<and> l \<noteq> [] \<longrightarrow>
          loopBody s line =
            s\<lparr>blocks := blocks s @ [(curBlock s)\<lparr>ConstructingBlock.flow := True\<rparr>],
              curBlock := (newBlock (Some l) False)\<lparr>body := [line]\<rparr>,
              labels := (labels s)(l \<mapsto> Suc (length (blocks s)))\<rparr>)"
  by (auto simp: branch_not_label branch_not_terminator loopBody_def)

theorem classifier_exclusive_witness:
  "getBranchMaybe ''bnz l1'' \<noteq> None \<and> getLabelMaybe ''bnz l1'' = None \<and> \<not> isTerminator ''bnz l1''
   \<and> getLabelMaybe ''err:'' = Some ''err'' \<and> isTerminator ''err:''
   \<and> curBlock (loopBody initBuilder ''err:'') = (newBlock (Some ''err'') False)\<lparr>body := [''err:'']\<rparr>"
proof -
  have b: "getBranchMaybe ''bnz l1'' \<noteq> None" by code_simp
  have l: "getLabelMaybe ''err:'' = Some ''err'' \<and> ''err'' \<noteq> []" by code_simp
  have t: "isTerminator ''err:''" by code_simp
  from classifier_exclusive [of "''bnz l1''" initBuilder] b
  have 1: "getLabelMaybe ''bnz l1'' = None \<and> \<not> isTerminator ''bnz l1''" by blast
  from classifier_exclusive [of "''err:''" initBuilder] l
  have 2: "curBlock (loopBody initBuilder ''err:'') = (newBlock (Some ''err'') False)\<lparr>body := [''err:'']\<rparr>"
    by simp
  from b 1 l t 2 show ?thesis by blast
qed

section \<open>Fallthrough successors\<close>

text \<open>
  C3: when \<open>extractBlocks\<close> succeeds, a fallthrough successor of the finished block at
  position \<open>i\<close> is the block at position \<open>i + 1\<close> of the finished list, whatever
  labels the blocks carry, and the last block has no fallthrough successor.
\<close>

theorem fallthrough_is_next_block:
  assumes "extractBlocks input = Inr bs"
  shows "(\<forall>i<length bs. \<forall>j. flow (bs ! i) = Some j \<longrightarrow> j = Suc i \<and> j < length bs)
         \<and> (bs \<noteq> [] \<longrightarrow> flow (last bs) = None)"
proof
  show "\<forall>i<length bs. \<forall>j. flow (bs ! i) = Some j \<longrightarrow> j = Suc i \<and> j < length bs"
    using extract_flow [OF assms] by (auto split: if_splits)
next
  show "bs \<noteq> [] \<longrightarrow> flow (last bs) = None"
  proof
    assume "bs \<noteq> []"
    then have "length bs - 1 < length bs" "last bs = bs ! (length bs - 1)"
      by (simp_all add: last_conv_nth)
    with extract_flow [OF assms, of "length bs - 1"] show "flow (last bs) = None"
      by auto
  qed
qed

theorem fallthrough_is_next_block_witness:
  "extractBlocks [''bnz l1'', ''int 1'', ''l1:'', ''err''] = Inr
     [\<lparr>contents = [''bnz l1''], label = ''b0'', dead = False, flow = Some 1, branch = Some 2\<rparr>,
      \<lparr>contents = [''int 1''], label = ''b1'', dead = True, flow = Some 2, branch = None\<rparr>,
      \<lparr>contents = [''l1:'', ''err''], label = ''l1'', dead = False, flow = None, branch = None\<rparr>]
   \<and> (2::nat) = Suc 1
   \<and> flow \<lparr>contents = [''l1:'', ''err''], label = ''l1'', dead = False, flow = None, branch = None\<rparr> = None"
proof -
  let ?bs = "[\<lparr>contents = [''bnz l1''], label = ''b0'', dead = False, flow = Some 1, branch = Some 2\<rparr>,
      \<lparr>contents = [''int 1''], label = ''b1'', dead = True, flow = Some 2, branch = None\<rparr>,
      \<lparr>contents = [''l1:'', ''err''], label = ''l1'', dead = False, flow = None, branch = None\<rparr>]"
  have e: "extractBlocks [''bnz l1'', ''int 1'', ''l1:'', ''err''] = Inr ?bs"
    by code_simp
  have i: "1 < length ?bs" and f: "flow (?bs ! 1) = Some 2" and n: "?bs \<noteq> []"
    by simp_all
  from fallthrough_is_next_block [OF e] i f have "(2::nat) = Suc 1" by blast
  moreover from fallthrough_is_next_block [OF e] n have "flow (last ?bs) = None" by blast
  ultimately show ?thesis using e by simp
qed

section \<open>Branch successors\<close>

text \<open>
  C4: when \<open>extractBlocks\<close> succeeds and the finished block at position \<open>i\<close> has the
  branch successor \<open>r\<close>, then \<open>r\<close> is a position of the finished list, the block there
  is derived from the surviving constructing block at the same position, that block carries
  the label the branching block recorded as its target, its first body line declares that
  label, the label table maps the label to it, and the finished label is the target name.
\<close>

theorem branch_successor_opens_with_label:
  assumes "extractBlocks input = Inr bs" "i < length bs" "branch (bs ! i) = Some r"
  shows "r < length bs
         \<and> ConstructingBlock.branch (surviving input ! i) = Some (label (bs ! r))
         \<and> ConstructingBlock.label (surviving input ! r) = Some (label (bs ! r))
         \<and> contents (bs ! r) = body (surviving input ! r)
         \<and> contents (bs ! r) \<noteq> []
         \<and> getLabelMaybe (hd (contents (bs ! r))) = Some (label (bs ! r))
         \<and> labels (build input) (label (bs ! r)) = Some (survivors (allBlocks input) ! r)"
proof -
  from extract_branch_Some [OF assms] obtain t where
    t: "r < length bs" "t \<noteq> []" "ConstructingBlock.branch (surviving input ! i) = Some t"
       "labels (build input) t = Some (survivors (allBlocks input) ! r)"
       "ConstructingBlock.label (surviving input ! r) = Some t"
    by blast
  from t(1) extract_Inr(1) [OF assms(1)] have r: "r < length (surviving input)" by simp
  from extract_label [OF assms(1) t(1)] surviving_label [OF r] t(5)
  have l: "label (bs ! r) = t" by simp
  from nth_mem [OF r] have "surviving input ! r \<in> set (allBlocks input)"
    by (simp add: surviving_def)
  from labelled_blocks [OF this t(5)] extract_contents [OF assms(1) t(1)] t l
  show ?thesis by simp
qed

theorem branch_successor_opens_with_label_witness:
  "extractBlocks [''bnz l1'', ''int 1'', ''l1:'', ''err''] = Inr
     [\<lparr>contents = [''bnz l1''], label = ''b0'', dead = False, flow = Some 1, branch = Some 2\<rparr>,
      \<lparr>contents = [''int 1''], label = ''b1'', dead = True, flow = Some 2, branch = None\<rparr>,
      \<lparr>contents = [''l1:'', ''err''], label = ''l1'', dead = False, flow = None, branch = None\<rparr>]
   \<and> ConstructingBlock.branch (surviving [''bnz l1'', ''int 1'', ''l1:'', ''err''] ! 0) = Some ''l1''
   \<and> getLabelMaybe ''l1:'' = Some ''l1''"
proof -
  let ?bs = "[\<lparr>contents = [''bnz l1''], label = ''b0'', dead = False, flow = Some 1, branch = Some 2\<rparr>,
      \<lparr>contents = [''int 1''], label = ''b1'', dead = True, flow = Some 2, branch = None\<rparr>,
      \<lparr>contents = [''l1:'', ''err''], label = ''l1'', dead = False, flow = None, branch = None\<rparr>]"
  have e: "extractBlocks [''bnz l1'', ''int 1'', ''l1:'', ''err''] = Inr ?bs"
    by code_simp
  have i: "0 < length ?bs" by simp
  have b: "branch (?bs ! 0) = Some 2" by simp
  from branch_successor_opens_with_label [OF e i b] e show ?thesis by simp
qed

section \<open>Empty blocks\<close>

text \<open>
  C5: when \<open>extractBlocks\<close> succeeds, every finished block has a non-empty body. The
  stream of the example ends on a terminator, so its unfiltered array ends with an empty
  block, which is not in the result.
\<close>

theorem finished_blocks_nonempty:
  assumes "extractBlocks input = Inr bs"
  shows "\<forall>b\<in>set bs. contents b \<noteq> []"
proof
  fix b assume "b \<in> set bs"
  then obtain j where j: "j < length bs" "b = bs ! j" by (auto simp: in_set_conv_nth)
  from j(1) extract_Inr(1) [OF assms] have "j < length (surviving input)" by simp
  from surviving_body [OF this] extract_contents [OF assms j(1)] j(2)
  show "contents b \<noteq> []" by simp
qed

theorem finished_blocks_nonempty_witness:
  "extractBlocks [''b l0'', ''l0:'', ''return''] = Inr
     [\<lparr>contents = [''b l0''], label = ''b0'', dead = False, flow = None, branch = Some 1\<rparr>,
      \<lparr>contents = [''l0:'', ''return''], label = ''l0'', dead = False, flow = None, branch = None\<rparr>]
   \<and> body (last (allBlocks [''b l0'', ''l0:'', ''return''])) = []
   \<and> [''b l0''] \<noteq> [] \<and> [''l0:'', ''return''] \<noteq> []"
proof -
  have e: "extractBlocks [''b l0'', ''l0:'', ''return''] = Inr
     [\<lparr>contents = [''b l0''], label = ''b0'', dead = False, flow = None, branch = Some 1\<rparr>,
      \<lparr>contents = [''l0:'', ''return''], label = ''l0'', dead = False, flow = None, branch = None\<rparr>]"
    by code_simp
  have t: "body (last (allBlocks [''b l0'', ''l0:'', ''return''])) = []"
    by code_simp
  from finished_blocks_nonempty [OF e] e t show ?thesis by simp
qed

section \<open>Labels of the finished blocks\<close>

lemma synthesizedLabels_set:
  "set (synthesizedLabels input) =
   {''b'' @ decimal j | j. j < length (surviving input) \<and>
                           ConstructingBlock.label (surviving input ! j) = None}"
proof (intro set_eqI iffI)
  fix x assume "x \<in> set (synthesizedLabels input)"
  then obtain j b where "(j, b) \<in> set (enumerate 0 (surviving input))"
    "ConstructingBlock.label b = None" "x = ''b'' @ decimal j"
    by (auto simp: synthesizedLabels_def split: option.splits)
  then show "x \<in> {''b'' @ decimal j | j. j < length (surviving input) \<and>
                           ConstructingBlock.label (surviving input ! j) = None}"
    by (auto simp: in_set_enumerate_eq)
next
  fix x assume "x \<in> {''b'' @ decimal j | j. j < length (surviving input) \<and>
                           ConstructingBlock.label (surviving input ! j) = None}"
  then obtain j where j: "j < length (surviving input)"
    "ConstructingBlock.label (surviving input ! j) = None" "x = ''b'' @ decimal j"
    by blast
  then have "(j, surviving input ! j) \<in> set (enumerate 0 (surviving input))"
    by (simp add: in_set_enumerate_eq)
  with j(2,3) show "x \<in> set (synthesizedLabels input)"
    by (force simp: synthesizedLabels_def)
qed

lemma finished_label_nth:
  assumes "extractBlocks input = Inr bs" "j < length bs"
  shows "label (bs ! j) =
         (case ConstructingBlock.label (surviving input ! j) of
            None \<Rightarrow> ''b'' @ decimal j | Some l \<Rightarrow> l)"
proof -
  from assms extract_Inr(1) [OF assms(1)] have "j < length (surviving input)" by simp
  from surviving_label [OF this] extract_label [OF assms] show ?thesis by simp
qed

lemma finished_labels_differ:
  assumes e: "extractBlocks input = Inr bs"
    and d: "distinct (declaredLabels input)"
    and s: "\<forall>l\<in>set (synthesizedLabels input). l \<notin> set (declaredLabels input)"
    and ij: "i < j" "j < length bs"
  shows "label (bs ! i) \<noteq> label (bs ! j)"
proof -
  let ?sv = "surviving input"
  from ij extract_Inr(1) [OF e] have len: "i < length ?sv" "j < length ?sv" by simp_all
  from ij have i: "i < length bs" by simp
  note li = finished_label_nth [OF e i] and lj = finished_label_nth [OF e ij(2)]
  from d have dl: "distinct (labelsOf ?sv)" by (simp add: labelsOf_surviving)
  show ?thesis
  proof (cases "ConstructingBlock.label (?sv ! i)")
    case None
    note ni = None
    show ?thesis
    proof (cases "ConstructingBlock.label (?sv ! j)")
      case None
      with ni li lj ij(1) decimal_inj [of i j] show ?thesis by auto
    next
      case (Some b)
      with len have "b \<in> set (declaredLabels input)"
        unfolding labelsOf_surviving [symmetric] labelsOf_set by blast
      moreover from ni len have "''b'' @ decimal i \<in> set (synthesizedLabels input)"
        unfolding synthesizedLabels_set by blast
      ultimately show ?thesis using s li lj ni Some by auto
    qed
  next
    case (Some a)
    note si = Some
    show ?thesis
    proof (cases "ConstructingBlock.label (?sv ! j)")
      case None
      from si len have "a \<in> set (declaredLabels input)"
        unfolding labelsOf_surviving [symmetric] labelsOf_set by blast
      moreover from None len have "''b'' @ decimal j \<in> set (synthesizedLabels input)"
        unfolding synthesizedLabels_set by blast
      ultimately show ?thesis using s li lj si None by auto
    next
      case (Some b)
      from labelsOf_distinct_nth [OF dl ij(1) len(2) si Some] li lj si Some
      show ?thesis by simp
    qed
  qed
qed

text \<open>
  C6, as stated: the labels of the finished blocks are pairwise distinct, because a
  synthesized name is never declared. In the stream \<open>int 1; b0:\<close> the first block is
  unlabeled and gets the synthesized name \<open>b0\<close>, and the second block declares \<open>b0\<close>.
\<close>

theorem synthesized_label_collides:
  "extractBlocks [''int 1'', ''b0:''] = Inr
     [\<lparr>contents = [''int 1''], label = ''b0'', dead = False, flow = Some 1, branch = None\<rparr>,
      \<lparr>contents = [''b0:''], label = ''b0'', dead = False, flow = None, branch = None\<rparr>]
   \<and> \<not> distinct (map label (projr (extractBlocks [''int 1'', ''b0:''])))"
  by code_simp

text \<open>
  C6, amended: when \<open>extractBlocks\<close> succeeds, the finished block at position \<open>j\<close> is
  labelled with the declared label of the surviving block at that position, or with
  \<open>b\<close> followed by the decimal digits of \<open>j\<close> when that block has none; the set of
  finished labels is the set of declared names together with the synthesized names; and the
  labels are pairwise distinct when no name is declared on two lines and no synthesized
  name is declared.
\<close>

theorem finished_labels:
  assumes "extractBlocks input = Inr bs"
  shows "(\<forall>j<length bs. label (bs ! j) =
            (case ConstructingBlock.label (surviving input ! j) of
               None \<Rightarrow> ''b'' @ decimal j | Some l \<Rightarrow> l))
         \<and> set (map label bs) = set (declaredLabels input) \<union> set (synthesizedLabels input)
         \<and> (distinct (declaredLabels input) \<and>
            (\<forall>l\<in>set (synthesizedLabels input). l \<notin> set (declaredLabels input))
            \<longrightarrow> distinct (map label bs))"
proof (intro conjI)
  show nth: "\<forall>j<length bs. label (bs ! j) =
            (case ConstructingBlock.label (surviving input ! j) of
               None \<Rightarrow> ''b'' @ decimal j | Some l \<Rightarrow> l)"
    using finished_label_nth [OF assms] by blast
  have len: "length bs = length (surviving input)" by (rule extract_Inr(1) [OF assms])
  show "set (map label bs) = set (declaredLabels input) \<union> set (synthesizedLabels input)"
  proof (intro set_eqI)
    fix x
    let ?name = "\<lambda>j. case ConstructingBlock.label (surviving input ! j) of
                       None \<Rightarrow> ''b'' @ decimal j | Some l \<Rightarrow> l"
    have "x \<in> set (map label bs) \<longleftrightarrow> (\<exists>j<length (map label bs). map label bs ! j = x)"
      by (rule in_set_conv_nth)
    also have "\<dots> \<longleftrightarrow> (\<exists>j<length bs. label (bs ! j) = x)"
      by (simp cong: conj_cong)
    also have "\<dots> \<longleftrightarrow> (\<exists>j<length bs. ?name j = x)"
      using nth by (simp cong: conj_cong)
    also have "\<dots> \<longleftrightarrow> x \<in> set (labelsOf (surviving input)) \<union> set (synthesizedLabels input)"
    proof
      assume "\<exists>j<length bs. ?name j = x"
      then obtain j where j: "j < length (surviving input)" "?name j = x"
        using len by auto
      show "x \<in> set (labelsOf (surviving input)) \<union> set (synthesizedLabels input)"
      proof (cases "ConstructingBlock.label (surviving input ! j)")
        case None
        with j have "x \<in> set (synthesizedLabels input)"
          unfolding synthesizedLabels_set by auto
        then show ?thesis by simp
      next
        case (Some l)
        with j have "x \<in> set (labelsOf (surviving input))"
          unfolding labelsOf_set by auto
        then show ?thesis by simp
      qed
    next
      assume "x \<in> set (labelsOf (surviving input)) \<union> set (synthesizedLabels input)"
      then consider j where "j < length (surviving input)"
          "ConstructingBlock.label (surviving input ! j) = Some x"
        | j where "j < length (surviving input)"
          "ConstructingBlock.label (surviving input ! j) = None" "x = ''b'' @ decimal j"
        unfolding labelsOf_set synthesizedLabels_set by blast
      then show "\<exists>j<length bs. ?name j = x"
      proof cases
        case 1
        then have "j < length bs \<and> ?name j = x" using len by simp
        then show ?thesis by blast
      next
        case 2
        then have "j < length bs \<and> ?name j = x" using len by simp
        then show ?thesis by blast
      qed
    qed
    finally show "x \<in> set (map label bs) \<longleftrightarrow>
                  x \<in> set (declaredLabels input) \<union> set (synthesizedLabels input)"
      by (simp add: labelsOf_surviving)
  qed
  show "distinct (declaredLabels input) \<and>
        (\<forall>l\<in>set (synthesizedLabels input). l \<notin> set (declaredLabels input))
        \<longrightarrow> distinct (map label bs)"
  proof
    assume h: "distinct (declaredLabels input) \<and>
        (\<forall>l\<in>set (synthesizedLabels input). l \<notin> set (declaredLabels input))"
    have "label (bs ! i) \<noteq> label (bs ! j)" if "i < length bs" "j < length bs" "i \<noteq> j" for i j
    proof (cases "i < j")
      case True
      from finished_labels_differ [OF assms _ _ True that(2)] h show ?thesis by blast
    next
      case False
      with that have "j < i" by simp
      from finished_labels_differ [OF assms _ _ this that(1)] h show ?thesis by metis
    qed
    then show "distinct (map label bs)"
      by (simp add: distinct_conv_nth)
  qed
qed

theorem finished_labels_witness:
  "extractBlocks [''bnz l1'', ''int 1'', ''l1:'', ''err''] = Inr
     [\<lparr>contents = [''bnz l1''], label = ''b0'', dead = False, flow = Some 1, branch = Some 2\<rparr>,
      \<lparr>contents = [''int 1''], label = ''b1'', dead = True, flow = Some 2, branch = None\<rparr>,
      \<lparr>contents = [''l1:'', ''err''], label = ''l1'', dead = False, flow = None, branch = None\<rparr>]
   \<and> declaredLabels [''bnz l1'', ''int 1'', ''l1:'', ''err''] = [''l1'']
   \<and> synthesizedLabels [''bnz l1'', ''int 1'', ''l1:'', ''err''] = [''b0'', ''b1'']
   \<and> distinct [''b0'', ''b1'', ''l1'']"
proof -
  let ?input = "[''bnz l1'', ''int 1'', ''l1:'', ''err'']"
  let ?bs = "[\<lparr>contents = [''bnz l1''], label = ''b0'', dead = False, flow = Some 1, branch = Some 2\<rparr>,
      \<lparr>contents = [''int 1''], label = ''b1'', dead = True, flow = Some 2, branch = None\<rparr>,
      \<lparr>contents = [''l1:'', ''err''], label = ''l1'', dead = False, flow = None, branch = None\<rparr>]"
  have e: "extractBlocks ?input = Inr ?bs" by code_simp
  have d: "declaredLabels ?input = [''l1'']" by code_simp
  have s: "synthesizedLabels ?input = [''b0'', ''b1'']" by code_simp
  have h: "distinct (declaredLabels ?input) \<and>
           (\<forall>l\<in>set (synthesizedLabels ?input). l \<notin> set (declaredLabels ?input))"
    by (simp add: d s)
  from finished_labels [OF e] h have "distinct (map label ?bs)" by blast
  then have "distinct [''b0'', ''b1'', ''l1'']" by simp
  with e d s show ?thesis by blast
qed

section \<open>Duplicate labels\<close>

text \<open>
  What the code does with a name that is declared more than once. Let the line \<open>l\<close>
  declare the name \<open>n\<close>, after the lines \<open>xs\<close> and before lines \<open>ys\<close> that do not
  declare \<open>n\<close>; \<open>xs\<close> may declare \<open>n\<close> any number of times. The prefix \<open>xs\<close>
  creates the constructing blocks at the addresses up to \<open>length (blocks (build xs))\<close>,
  so the next address is the block that \<open>l\<close> opens. The label table maps \<open>n\<close> to
  that block, whose body starts with \<open>l\<close>; no error is raised for \<open>n\<close>; every block
  that the linking loop visits and whose target is \<open>n\<close> gets a branch successor; and
  every branch successor of a block whose target is \<open>n\<close> is the finished block of that
  address.
\<close>

lemma last_declaration_linked:
  assumes "getLabelMaybe l = Some n" "n \<noteq> []" "\<forall>y\<in>set ys. getLabelMaybe y \<noteq> Some n"
  shows "labels (build (xs @ l # ys)) n = Some (Suc (length (blocks (build xs))))
         \<and> (\<exists>more. body (allBlocks (xs @ l # ys) ! Suc (length (blocks (build xs)))) = l # more)
         \<and> extractBlocks (xs @ l # ys) \<noteq> Inl (BranchTargetNotFound n)
         \<and> (\<forall>bs i. extractBlocks (xs @ l # ys) = Inr bs \<and> Suc i < length bs \<and>
                ConstructingBlock.branch (surviving (xs @ l # ys) ! i) = Some n \<longrightarrow>
              (\<exists>r. branch (bs ! i) = Some r))
         \<and> (\<forall>bs i r. extractBlocks (xs @ l # ys) = Inr bs \<and> i < length bs \<and>
                ConstructingBlock.branch (surviving (xs @ l # ys) ! i) = Some n \<and>
                branch (bs ! i) = Some r \<longrightarrow>
              survivors (allBlocks (xs @ l # ys)) ! r = Suc (length (blocks (build xs))) \<and>
              (\<exists>more. contents (bs ! r) = l # more))"
proof -
  let ?input = "xs @ l # ys"
  let ?a = "Suc (length (blocks (build xs)))"
  from assms(1,2) have dl: "n \<in> set (declares l)" by (simp add: declares_def)
  from assms(3) have dy: "\<forall>y\<in>set ys. n \<notin> set (declares y)"
    by (auto simp: declares_def split: option.splits if_splits)
  note tab = last_declaration(1) [OF dl dy, of xs]
  from last_declaration(2) [OF dl dy, of xs] obtain more where
    more: "body (allBlocks ?input ! ?a) = l # more" by blast
  have noerr: "extractBlocks ?input \<noteq> Inl (BranchTargetNotFound n)"
  proof
    assume "extractBlocks ?input = Inl (BranchTargetNotFound n)"
    from extract_Inl [OF this] tab show False by simp
  qed
  have linked: "\<exists>r. branch (bs ! i) = Some r"
    if h: "extractBlocks ?input = Inr bs" "Suc i < length bs"
      "ConstructingBlock.branch (surviving ?input ! i) = Some n"
    for bs i
  proof -
    from h(2) have i: "i < length bs" by simp
    from label_resolves [OF tab] obtain k where
      "realBlock (fst (construct (allBlocks ?input) (survivors (allBlocks ?input)) 0) ! ?a) = Some k"
      by blast
    with extract_branch [OF h(1) i] h(2,3) assms(2) tab show ?thesis by simp
  qed
  have res: "survivors (allBlocks ?input) ! r = ?a \<and> (\<exists>more. contents (bs ! r) = l # more)"
    if h: "extractBlocks ?input = Inr bs" "i < length bs"
      "ConstructingBlock.branch (surviving ?input ! i) = Some n" "branch (bs ! i) = Some r"
    for bs i r
  proof -
    from extract_branch_Some [OF h(1,2,4)] h(3) tab have
      r: "r < length bs" "survivors (allBlocks ?input) ! r = ?a"
      by auto
    from r(1) extract_Inr(1) [OF h(1)] have "r < length (surviving ?input)" by simp
    from surviving_nth [OF this] r(2) extract_contents [OF h(1) r(1)] more
    have "contents (bs ! r) = l # more" by simp
    with r(2) show ?thesis by blast
  qed
  from tab more noerr linked res show ?thesis by blast
qed

lemma last_declaration_linked_example:
  "getLabelMaybe ''a:'' = Some ''a''
   \<and> extractBlocks [''a:'', ''b a'', ''a:'', ''int 1''] = Inr
       [\<lparr>contents = [''a:'', ''b a''], label = ''a'', dead = False, flow = None, branch = Some 1\<rparr>,
        \<lparr>contents = [''a:'', ''int 1''], label = ''a'', dead = False, flow = None, branch = None\<rparr>]
   \<and> length (blocks (build [''a:'', ''b a''])) = 2
   \<and> labels (build [''a:'', ''b a'', ''a:'', ''int 1'']) ''a'' = Some 3
   \<and> survivors (allBlocks [''a:'', ''b a'', ''a:'', ''int 1'']) ! 1 = 3"
proof -
  let ?input = "[''a:'', ''b a'', ''a:'', ''int 1'']"
  let ?bs = "[\<lparr>contents = [''a:'', ''b a''], label = ''a'', dead = False, flow = None, branch = Some 1\<rparr>,
        \<lparr>contents = [''a:'', ''int 1''], label = ''a'', dead = False, flow = None, branch = None\<rparr>]"
  have h1: "getLabelMaybe ''a:'' = Some ''a''" by code_simp
  have h2: "''a'' \<noteq> []" by simp
  have h3: "\<forall>y\<in>set [''int 1'']. getLabelMaybe y \<noteq> Some ''a''" by code_simp
  have len: "length (blocks (build [''a:'', ''b a''])) = 2" by code_simp
  have e: "extractBlocks ?input = Inr ?bs" by code_simp
  have t: "ConstructingBlock.branch (surviving ?input ! 0) = Some ''a''" by code_simp
  have i: "0 < length ?bs" and i': "Suc 0 < length ?bs" and b: "branch (?bs ! 0) = Some 1"
    by simp_all
  have app: "[''a:'', ''b a''] @ ''a:'' # [''int 1''] = ?input" by simp
  note w = last_declaration_linked [OF h1 h2 h3, of "[''a:'', ''b a'']", unfolded app len]
  from w have "labels (build ?input) ''a'' = Some (Suc 2)" by blast
  moreover from w e i' t have "\<exists>r. branch (?bs ! 0) = Some r" by blast
  moreover from w e i t b have "survivors (allBlocks ?input) ! 1 = Suc 2" by blast
  ultimately show ?thesis using h1 e len by simp
qed

text \<open>
  C8: when a name is declared on more than one line, the label table records the block
  opened by the last declaration, no error is raised, and every branch whose target is
  that name resolves to that block. In the stream \<open>a:; int 1; a:; b a\<close> the table maps
  \<open>a\<close> to the block opened by the second declaration (address 2) and no error is raised,
  but the block holding \<open>b a\<close> is the last surviving block, which the linking loop never
  visits: its recorded target is \<open>a\<close> and it has no branch successor.
\<close>

theorem duplicate_label_branch_in_last_block_unlinked:
  "extractBlocks [''a:'', ''int 1'', ''a:'', ''b a''] = Inr
     [\<lparr>contents = [''a:'', ''int 1''], label = ''a'', dead = False, flow = Some 1, branch = None\<rparr>,
      \<lparr>contents = [''a:'', ''b a''], label = ''a'', dead = False, flow = None, branch = None\<rparr>]
   \<and> labels (build [''a:'', ''int 1'', ''a:'', ''b a'']) ''a'' = Some 2
   \<and> body (allBlocks [''a:'', ''int 1'', ''a:'', ''b a''] ! 2) = [''a:'', ''b a'']
   \<and> ConstructingBlock.branch (surviving [''a:'', ''int 1'', ''a:'', ''b a''] ! 1) = Some ''a''"
  by code_simp

section \<open>Empty branch targets\<close>

text \<open>
  C9: a line that is a branch mnemonic followed by one space is not a label line, is a
  branch with the empty target, and closes the current block with that target recorded.
  For every stream, the unresolved-target error is never raised for the empty name, and a
  block whose recorded target is empty has no branch successor in the result. The stream
  \<open>b ; int 1\<close> of the example returns a graph.
\<close>

theorem empty_target_skipped:
  "(m \<in> {''bnz'', ''bz'', ''b''} \<longrightarrow>
      getLabelMaybe (m @ '' '') = None \<and> getBranchMaybe (m @ '' '') = Some (m, [])
      \<and> loopBody s (m @ '' '') =
          s\<lparr>blocks := blocks s @
               [(curBlock s)\<lparr>body := body (curBlock s) @ [m @ '' ''],
                  ConstructingBlock.flow := (m \<noteq> ''b''), ConstructingBlock.branch := Some []\<rparr>],
            curBlock := newBlock None (m \<noteq> ''b'')\<rparr>)
   \<and> extractBlocks input \<noteq> Inl (BranchTargetNotFound [])
   \<and> (\<forall>bs i. extractBlocks input = Inr bs \<and> i < length bs \<and>
          ConstructingBlock.branch (surviving input ! i) = Some [] \<longrightarrow> branch (bs ! i) = None)"
proof (intro conjI impI allI)
  assume m: "m \<in> {''bnz'', ''bz'', ''b''}"
  then show l: "getLabelMaybe (m @ '' '') = None"
    by (auto simp: getLabelMaybe_def indexOf_def)
  from m show b: "getBranchMaybe (m @ '' '') = Some (m, [])"
    by (auto simp: getBranchMaybe_def dotStar_def)
  from l b show "loopBody s (m @ '' '') =
          s\<lparr>blocks := blocks s @
               [(curBlock s)\<lparr>body := body (curBlock s) @ [m @ '' ''],
                  ConstructingBlock.flow := (m \<noteq> ''b''), ConstructingBlock.branch := Some []\<rparr>],
            curBlock := newBlock None (m \<noteq> ''b'')\<rparr>"
    by (simp add: loopBody_def otherLine_def Let_def)
next
  show "extractBlocks input \<noteq> Inl (BranchTargetNotFound [])"
    using extract_Inl [of input "BranchTargetNotFound []"] by auto
next
  fix bs i
  assume "extractBlocks input = Inr bs \<and> i < length bs \<and>
          ConstructingBlock.branch (surviving input ! i) = Some []"
  then show "branch (bs ! i) = None"
    using extract_branch [of input bs i] by simp
qed

theorem empty_target_skipped_witness:
  "getBranchMaybe ''b '' = Some (''b'', [])
   \<and> extractBlocks [''b '', ''int 1''] = Inr
       [\<lparr>contents = [''b ''], label = ''b0'', dead = False, flow = None, branch = None\<rparr>,
        \<lparr>contents = [''int 1''], label = ''b1'', dead = False, flow = None, branch = None\<rparr>]
   \<and> ConstructingBlock.branch (surviving [''b '', ''int 1''] ! 0) = Some []"
proof -
  let ?input = "[''b '', ''int 1'']"
  let ?bs = "[\<lparr>contents = [''b ''], label = ''b0'', dead = False, flow = None, branch = None\<rparr>,
        \<lparr>contents = [''int 1''], label = ''b1'', dead = False, flow = None, branch = None\<rparr>]"
  have m: "''b'' \<in> {''bnz'', ''bz'', ''b''}" by simp
  have e: "extractBlocks ?input = Inr ?bs" by code_simp
  have t: "ConstructingBlock.branch (surviving ?input ! 0) = Some []" by code_simp
  have i: "0 < length ?bs" by simp
  note w = empty_target_skipped [of "''b''" initBuilder ?input]
  from w m have "getBranchMaybe (''b'' @ '' '') = Some (''b'', [])" by blast
  then have g: "getBranchMaybe ''b '' = Some (''b'', [])" by simp
  from w e i t have "branch (?bs ! 0) = None" by blast
  with g e t show ?thesis by blast
qed

section \<open>Terminators by prefix\<close>

text \<open>
  C10: a line that is neither a usable label nor a branch and whose text starts with
  \<open>err\<close> or \<open>return\<close> is appended to the current block, the block is closed with
  neither the flow flag nor a branch target set, and the block opened next is dead. The
  lines \<open>errata\<close> and \<open>returned 5\<close> of the example are such lines.
\<close>

theorem terminator_prefix_closes_block:
  assumes "getLabelMaybe line = None \<or> getLabelMaybe line = Some []"
    and "getBranchMaybe line = None"
    and "line = ''err'' @ rest \<or> line = ''return'' @ rest"
  shows "build (xs @ [line]) =
           (build xs)\<lparr>blocks := blocks (build xs) @
                          [(curBlock (build xs))\<lparr>body := body (curBlock (build xs)) @ [line]\<rparr>],
                      curBlock := newBlock None True\<rparr>
         \<and> \<not> ConstructingBlock.flow (last (blocks (build (xs @ [line]))))
         \<and> ConstructingBlock.branch (last (blocks (build (xs @ [line])))) = None
         \<and> ConstructingBlock.dead (curBlock (build (xs @ [line])))"
proof -
  from assms(3) have t: "isTerminator line" by (auto simp: isTerminator_def)
  from assms(1) have "loopBody (build xs) line = otherLine (build xs) line"
    by (auto simp: loopBody_def)
  with assms(2) t have b: "build (xs @ [line]) =
           (build xs)\<lparr>blocks := blocks (build xs) @
                          [(curBlock (build xs))\<lparr>body := body (curBlock (build xs)) @ [line]\<rparr>],
                      curBlock := newBlock None True\<rparr>"
    by (simp add: build_snoc otherLine_def)
  with cur_fresh [of xs] show ?thesis
    by (simp add: newBlock_def)
qed

theorem terminator_prefix_closes_block_witness:
  "getLabelMaybe ''errata'' = None \<and> getBranchMaybe ''errata'' = None
   \<and> getLabelMaybe ''returned 5'' = None \<and> getBranchMaybe ''returned 5'' = None
   \<and> \<not> ConstructingBlock.flow (last (blocks (build [''int 1'', ''errata''])))
   \<and> ConstructingBlock.branch (last (blocks (build [''int 1'', ''errata'']))) = None
   \<and> ConstructingBlock.dead (curBlock (build [''int 1'', ''errata'']))
   \<and> ConstructingBlock.dead (curBlock (build [''int 1'', ''returned 5'']))"
proof -
  have l1: "getLabelMaybe ''errata'' = None" and b1: "getBranchMaybe ''errata'' = None"
    and l2: "getLabelMaybe ''returned 5'' = None" and b2: "getBranchMaybe ''returned 5'' = None"
    by code_simp+
  have p1: "''errata'' = ''err'' @ ''ata'' \<or> ''errata'' = ''return'' @ ''ata''" by simp
  have p2: "''returned 5'' = ''err'' @ ''ed 5'' \<or> ''returned 5'' = ''return'' @ ''ed 5''" by simp
  from l1 have l1': "getLabelMaybe ''errata'' = None \<or> getLabelMaybe ''errata'' = Some []" by simp
  from l2 have l2': "getLabelMaybe ''returned 5'' = None \<or> getLabelMaybe ''returned 5'' = Some []"
    by simp
  have a1: "[''int 1''] @ [''errata''] = [''int 1'', ''errata'']"
    and a2: "[''int 1''] @ [''returned 5''] = [''int 1'', ''returned 5'']" by simp_all
  note w1 = terminator_prefix_closes_block [OF l1' b1 p1, of "[''int 1'']", unfolded a1]
  note w2 = terminator_prefix_closes_block [OF l2' b2 p2, of "[''int 1'']", unfolded a2]
  from w1 w2 l1 b1 l2 b2 show ?thesis by blast
qed

end
